theory Spec2Isabelle
  imports Main "HOL-Library.Sublist" "HOL-Library.AList"
begin

section \<open>Strings\<close>

text \<open>
  A Python \<open>str\<close> is a sequence of Unicode code points, so a string is a list of
  naturals (one per code point), not a list of bytes. \<open>str_of\<close> turns an ASCII literal
  into such a string.
\<close>

type_synonym pystr = "nat list"

definition str_of :: "string \<Rightarrow> pystr" where
  "str_of s = map of_char s"

text \<open>
  \<open>isspace\<close> is the whitespace predicate of CPython, shared by the regular expression
  class \<open>\s\<close> on \<open>str\<close> patterns and by \<open>str.strip()\<close> without an argument.
\<close>

definition isspace :: "nat \<Rightarrow> bool" where
  "isspace c \<longleftrightarrow>
     (9 \<le> c \<and> c \<le> 13) \<or> (28 \<le> c \<and> c \<le> 32) \<or> c = 133 \<or> c = 160 \<or> c = 5760 \<or>
     (8192 \<le> c \<and> c \<le> 8202) \<or> c = 8232 \<or> c = 8233 \<or> c = 8239 \<or> c = 8287 \<or>
     c = 12288"

text \<open>\<open>s or ""\<close> for an optional string: \<open>None\<close> and the empty string both give \<open>""\<close>.\<close>

definition or_empty :: "pystr option \<Rightarrow> pystr" where
  "or_empty s = (case s of None \<Rightarrow> [] | Some t \<Rightarrow> t)"

text \<open>\<open>a or b\<close> on optional strings: \<open>a\<close> when it is truthy (neither \<open>None\<close> nor empty).\<close>

definition py_or :: "pystr option \<Rightarrow> pystr option \<Rightarrow> pystr option" where
  "py_or a b = (case a of None \<Rightarrow> b | Some t \<Rightarrow> if t = [] then b else Some t)"

text \<open>\<open>s.strip()\<close>: whitespace removed at both ends.\<close>

definition strip :: "pystr \<Rightarrow> pystr" where
  "strip s = dropWhile isspace (rev (dropWhile isspace (rev s)))"

text \<open>
  \<open>re.sub(r"\s+", " ", s)\<close>: scanning from the left, every maximal run of whitespace is
  replaced by one space (code point 32).
\<close>

function sub_ws :: "pystr \<Rightarrow> pystr" where
  "sub_ws [] = []"
| "sub_ws (c # cs) =
     (if isspace c then 32 # sub_ws (dropWhile isspace cs) else c # sub_ws cs)"
  by pat_completeness auto
termination
  by (relation "measure length") (auto simp: length_dropWhile_le le_imp_less_Suc)

text \<open>\<open>clean_text\<close> of \<open>parse_article\<close>: \<open>re.sub(r"\s+", " ", (s or "")).strip()\<close>.\<close>

definition clean_text :: "pystr option \<Rightarrow> pystr" where
  "clean_text s = strip (sub_ws (or_empty s))"

text \<open>A string in which whitespace occurs only as single, isolated spaces.\<close>

fun single_spaced :: "pystr \<Rightarrow> bool" where
  "single_spaced [] = True"
| "single_spaced [c] = (isspace c \<longrightarrow> c = 32)"
| "single_spaced (c # d # cs) =
     ((isspace c \<longrightarrow> c = 32) \<and> \<not> (isspace c \<and> isspace d) \<and> single_spaced (d # cs))"

section \<open>Extractor\<close>

text \<open>
  \<open>s.split(sep)\<close> for a one-character separator, and \<open>re.split\<close> on an alternation
  of single characters: the pieces between the separators, in order; a string without
  separator (also the empty one) gives one piece.
\<close>

fun split_on :: "(nat \<Rightarrow> bool) \<Rightarrow> pystr \<Rightarrow> pystr list" where
  "split_on p [] = [[]]"
| "split_on p (c # cs) =
     (if p c then [] # split_on p cs
      else (case split_on p cs of [] \<Rightarrow> [[c]] | w # ws \<Rightarrow> (c # w) # ws))"

text \<open>\<open>s.split("?")[0]\<close>: the piece before the first question mark (code point 63).\<close>

definition before_query :: "pystr \<Rightarrow> pystr" where
  "before_query s = (case split_on (\<lambda>c. c = 63) s of [] \<Rightarrow> [] | w # ws \<Rightarrow> w)"

text \<open>\<open>[clean_text(x) for x in xs if clean_text(x)]\<close>\<close>

definition cleaned :: "pystr list \<Rightarrow> pystr list" where
  "cleaned xs = map (\<lambda>x. clean_text (Some x)) (filter (\<lambda>x. clean_text (Some x) \<noteq> []) xs)"

text \<open>
  \<open>list(dict.fromkeys(xs))\<close>: the keys of a dictionary filled in the order of \<open>xs\<close>; a
  key that is already there keeps its place.
\<close>

fun fromkeys_into :: "'a list \<Rightarrow> 'a list \<Rightarrow> 'a list" where
  "fromkeys_into acc [] = acc"
| "fromkeys_into acc (x # xs) = fromkeys_into (if x \<in> set acc then acc else acc @ [x]) xs"

definition dict_fromkeys :: "'a list \<Rightarrow> 'a list" where
  "dict_fromkeys xs = fromkeys_into [] xs"

text \<open>\<open>"\n".join(parts)\<close> (code point 10).\<close>

fun join_lines :: "pystr list \<Rightarrow> pystr" where
  "join_lines [] = []"
| "join_lines [x] = x"
| "join_lines (x # y # ys) = x @ 10 # join_lines (y # ys)"

text \<open>
  The rendered article as \<open>parse_article\<close> sees it: its URL and the result of each XPath
  query the function makes (\<open>.get()\<close> gives an optional string, \<open>.getall()\<close> a list).
\<close>

record response =
  url :: pystr
  h1_text :: "pystr option"
  og_title :: "pystr option"
  meta_description :: "pystr option"
  og_description :: "pystr option"
  published_time :: "pystr option"
  time_datetime :: "pystr option"
  og_image :: "pystr option"
  meta_keywords :: "pystr option"
  tag_texts :: "pystr list"
  meta_author :: "pystr option"
  author_texts :: "pystr list"
  content_texts :: "pystr list"

text \<open>
  \<open>KpArticleItem\<close> with every field set, as \<open>parse_article\<close> builds it (the field
  \<open>keywords\<close> is named \<open>keywords_field\<close> here).
\<close>

record item =
  title :: pystr
  description :: pystr
  article_text :: pystr
  publication_datetime :: pystr
  header_photo_url :: "pystr option"
  header_photo_base64 :: "pystr option"
  keywords_field :: "pystr list"
  authors :: "pystr list"
  source_url :: pystr

text \<open>An optional string is truthy when it is present and not empty.\<close>

definition truthy :: "pystr option \<Rightarrow> bool" where
  "truthy s = (case s of None \<Rightarrow> False | Some t \<Rightarrow> t \<noteq> [])"

text \<open>The keywords of \<open>parse_article\<close>; the commas are code point 44.\<close>

definition parse_keywords :: "pystr option \<Rightarrow> pystr list \<Rightarrow> pystr list" where
  "parse_keywords kw_str tags =
     (if truthy kw_str then cleaned (split_on (\<lambda>c. c = 44) (or_empty kw_str))
      else cleaned tags)"

text \<open>
  The authors of \<open>parse_article\<close>; the separators \<open>,\<close> \<open>;\<close> \<open>&\<close> are code points 44, 59
  and 38. Only the second branch passes through \<open>dict.fromkeys\<close>.
\<close>

definition parse_authors :: "pystr option \<Rightarrow> pystr list \<Rightarrow> pystr list" where
  "parse_authors author_meta texts =
     (if truthy author_meta
      then cleaned (split_on (\<lambda>c. c = 44 \<or> c = 59 \<or> c = 38) (or_empty author_meta))
      else dict_fromkeys (cleaned texts))"

definition parse_article :: "response \<Rightarrow> item" where
  "parse_article r =
     \<lparr> title = clean_text (py_or (h1_text r) (og_title r)),
       description = clean_text (py_or (meta_description r) (og_description r)),
       article_text = join_lines (cleaned (content_texts r)),
       publication_datetime = clean_text (py_or (published_time r) (time_datetime r)),
       header_photo_url =
         (let u = clean_text (og_image r) in if u = [] then None else Some u),
       header_photo_base64 = None,
       keywords_field = parse_keywords (meta_keywords r) (tag_texts r),
       authors = parse_authors (meta_author r) (author_texts r),
       source_url = before_query (url r) \<rparr>"

text \<open>A rendered article on which every query of \<open>parse_article\<close> finds nothing.\<close>

definition blank_response :: response where
  "blank_response =
     \<lparr> url = [], h1_text = Some [], og_title = None, meta_description = None,
       og_description = None, published_time = None, time_datetime = None,
       og_image = None, meta_keywords = None, tag_texts = [], meta_author = None,
       author_texts = [], content_texts = [] \<rparr>"

section \<open>Image post-processor\<close>

text \<open>
  The exceptions the pipelines meet: the malformed-URL error of aiohttp, any other error
  of the HTTP client, an error of the image library, and the errors of the store and of
  a dictionary lookup.
\<close>

datatype exn =
  InvalidUrlClientError | ClientError | ImageError | DuplicateKeyError | WriteError | KeyError |
  PlaywrightError

type_synonym bytes = "nat list"

text \<open>
  The outcome of \<open>session.get(url)\<close>: it raises, or it gives a response with a status
  whose body \<open>response.read()\<close> returns or fails to read.
\<close>

datatype fetch = GetRaises exn | Response int "exn + bytes"

record image =
  mode :: string
  pixels :: "nat list"

text \<open>
  The collaborators of \<open>PhotoDownloaderPipeline\<close>: the HTTP session, the image library
  (\<open>Image.open\<close> and \<open>img.save\<close> give \<open>None\<close> where they raise) and \<open>base64.b64encode\<close>.
\<close>

record world =
  session_get :: "pystr \<Rightarrow> fetch"
  image_open :: "bytes \<Rightarrow> image option"
  convert_rgb :: "image \<Rightarrow> image"
  save_jpeg :: "int \<Rightarrow> image \<Rightarrow> bytes option"
  b64encode :: "bytes \<Rightarrow> pystr"

definition compress_image :: "world \<Rightarrow> int \<Rightarrow> bytes \<Rightarrow> exn + bytes" where
  "compress_image w result_image_quality image_content =
     (case image_open w image_content of
        None \<Rightarrow> Inl ImageError
      | Some img \<Rightarrow>
          (let img' = (if mode img = ''RGBA'' \<or> mode img = ''P'' then convert_rgb w img else img)
           in case save_jpeg w result_image_quality img' of
                None \<Rightarrow> Inl ImageError
              | Some out \<Rightarrow> Inr out))"

text \<open>\<open>_download_photo_to_base64\<close>: a status other than 200 gives the empty string.\<close>

definition download_photo_to_base64 :: "world \<Rightarrow> int \<Rightarrow> pystr \<Rightarrow> exn + pystr" where
  "download_photo_to_base64 w q u =
     (case session_get w u of
        GetRaises e \<Rightarrow> Inl e
      | Response status rd \<Rightarrow>
          if status \<noteq> 200 then Inr []
          else (case rd of
                  Inl e \<Rightarrow> Inl e
                | Inr content \<Rightarrow>
                    (case compress_image w q content of
                       Inl e \<Rightarrow> Inl e
                     | Inr compressed \<Rightarrow> Inr (b64encode w compressed))))"

text \<open>
  \<open>PhotoDownloaderPipeline.process_item\<close>: only \<open>InvalidUrlClientError\<close> is caught; any
  other exception leaves the function (\<open>Inl\<close>).
\<close>

definition photo_process_item :: "world \<Rightarrow> int \<Rightarrow> item \<Rightarrow> exn + item" where
  "photo_process_item w q it =
     (if truthy (header_photo_url it) then
        (case download_photo_to_base64 w q (or_empty (header_photo_url it)) of
           Inl e \<Rightarrow>
             if e = InvalidUrlClientError
             then Inr (it\<lparr>header_photo_url := None, header_photo_base64 := None\<rparr>)
             else Inl e
         | Inr photo_base64 \<Rightarrow> Inr (it\<lparr>header_photo_base64 := Some photo_base64\<rparr>))
      else Inr (it\<lparr>header_photo_base64 := None\<rparr>))"

text \<open>A record with a photo URL, and collaborators that answer every fetch with \<open>f\<close>.\<close>

definition sample_item :: item where
  "sample_item =
     \<lparr> title = str_of ''t'', description = [], article_text = [], publication_datetime = [],
       header_photo_url = Some (str_of ''http://x/p.png''), header_photo_base64 = None,
       keywords_field = [], authors = [], source_url = str_of ''http://x/a'' \<rparr>"

definition sample_world :: "fetch \<Rightarrow> world" where
  "sample_world f =
     \<lparr> session_get = (\<lambda>u. f), image_open = (\<lambda>b. None), convert_rgb = (\<lambda>i. i),
       save_jpeg = (\<lambda>q i. None), b64encode = (\<lambda>b. b) \<rparr>"

section \<open>Storage sink\<close>

text \<open>
  A stored document is a dictionary from field names to values; \<open>dict(item)\<close> holds the
  fields that are set on the item. An association list keeps the insertion order of the
  Python dictionary.
\<close>

datatype bson = Null | Str pystr | StrList "pystr list" | ObjectId nat

type_synonym document = "(string \<times> bson) list"

text \<open>The value a query or a unique index reads: a missing field counts as null.\<close>

definition field :: "document \<Rightarrow> string \<Rightarrow> bson" where
  "field d k = (case map_of d k of None \<Rightarrow> Null | Some v \<Rightarrow> v)"

text \<open>\<open>doc.setdefault(k, v)\<close>\<close>

definition setdefault :: "string \<Rightarrow> bson \<Rightarrow> document \<Rightarrow> document" where
  "setdefault k v d = (if map_of d k = None then d @ [(k, v)] else d)"

text \<open>
  The collection is the list of its documents. The driver's \<open>insert_one\<close> puts a fresh
  \<open>_id\<close> into the dictionary it is given when that has none, before it sends it, so the
  caller's dictionary carries the \<open>_id\<close> afterwards, also when the insert fails. The
  insert fails with \<open>DuplicateKeyError\<close> when a stored document has the same \<open>_id\<close> or the
  same \<open>source_url\<close> (the unique index that \<open>open_spider\<close> creates).
\<close>

definition with_id :: "nat \<Rightarrow> document \<Rightarrow> document" where
  "with_id fresh doc =
     (if map_of doc ''_id'' = None then doc @ [(''_id'', ObjectId fresh)] else doc)"

definition duplicate_key :: "document \<Rightarrow> document list \<Rightarrow> bool" where
  "duplicate_key doc docs =
     list_ex (\<lambda>d. field d ''_id'' = field doc ''_id'' \<or>
                  field d ''source_url'' = field doc ''source_url'') docs"

definition insert_one ::
  "nat \<Rightarrow> document \<Rightarrow> document list \<Rightarrow> document \<times> (exn + document list)" where
  "insert_one fresh doc docs =
     (let doc' = with_id fresh doc
      in (doc', if duplicate_key doc' docs then Inl DuplicateKeyError else Inr (docs @ [doc'])))"

fun replace_first :: "('a \<Rightarrow> bool) \<Rightarrow> 'a \<Rightarrow> 'a list \<Rightarrow> 'a list" where
  "replace_first p y [] = []"
| "replace_first p y (x # xs) = (if p x then y # xs else x # replace_first p y xs)"

text \<open>
  \<open>update_one({"source_url": v}, {"$set": set_doc}, upsert=True)\<close>: the first document
  whose \<open>source_url\<close> is \<open>v\<close> gets every field of \<open>set_doc\<close> and keeps its other fields.
  The store refuses an update that would change the \<open>_id\<close> of the document
  (\<open>WriteError\<close>) or break the unique index. When no document matches, one is inserted.
\<close>

definition update_one ::
  "nat \<Rightarrow> bson \<Rightarrow> document \<Rightarrow> document list \<Rightarrow> exn + document list" where
  "update_one fresh v set_doc docs =
     (case List.find (\<lambda>d. field d ''source_url'' = v) docs of
        Some d \<Rightarrow>
          (let new = AList.merge d set_doc in
           if field new ''_id'' \<noteq> field d ''_id'' then Inl WriteError
           else if list_ex (\<lambda>x. field x ''source_url'' = field new ''source_url'')
                     (remove1 d docs)
             then Inl DuplicateKeyError
           else Inr (replace_first (\<lambda>x. field x ''source_url'' = v) new docs))
      | None \<Rightarrow>
          (let new = with_id fresh (AList.merge [(''source_url'', v)] set_doc) in
           if duplicate_key new docs then Inl DuplicateKeyError else Inr (docs @ [new])))"

text \<open>
  The document \<open>MongoPipeline.process_item\<close> builds from \<open>dict(item)\<close>: the two photo
  fields default to null and the time of the write is stamped.
\<close>

definition prepare :: "pystr \<Rightarrow> document \<Rightarrow> document" where
  "prepare now item_dict =
     AList.update ''parsed_at_utc'' (Str now)
       (setdefault ''header_photo_base64'' Null (setdefault ''header_photo_url'' Null item_dict))"

text \<open>
  \<open>MongoPipeline.process_item\<close>, as a function of the collection: \<open>insert_one\<close>, and on
  \<open>DuplicateKeyError\<close> the \<open>$set\<close> update with the same dictionary. \<open>doc["source_url"]\<close>
  raises \<open>KeyError\<close> when the field is not set.
\<close>

definition mongo_process_item ::
  "nat \<Rightarrow> pystr \<Rightarrow> document \<Rightarrow> document list \<Rightarrow> exn + document list" where
  "mongo_process_item fresh now item_dict docs =
     (case insert_one fresh (prepare now item_dict) docs of
        (doc, Inr docs') \<Rightarrow> Inr docs'
      | (doc, Inl e) \<Rightarrow>
          if e = DuplicateKeyError then
            (case map_of doc ''source_url'' of
               None \<Rightarrow> Inl KeyError
             | Some v \<Rightarrow> update_one fresh v doc docs)
          else Inl e)"

text \<open>The unique indexes of the collection hold.\<close>

definition store_ok :: "document list \<Rightarrow> bool" where
  "store_ok docs \<longleftrightarrow>
     distinct (map (\<lambda>d. field d ''_id'') docs) \<and>
     distinct (map (\<lambda>d. field d ''source_url'') docs)"

text \<open>
  \<open>dict(item)\<close> of a record as \<open>parse_article\<close> builds it: all nine fields of
  \<open>KpArticleItem\<close> are set, none of them is \<open>_id\<close>. Two parses of the same article that
  differ in the title, and the document that the sink stores for the first of them.
\<close>

definition parse_dict :: "string \<Rightarrow> document" where
  "parse_dict t =
     [(''title'', Str (str_of t)), (''description'', Str (str_of ''d'')),
      (''article_text'', Str (str_of ''a'')), (''publication_datetime'', Str (str_of ''p'')),
      (''header_photo_url'', Null), (''header_photo_base64'', Null),
      (''keywords'', StrList []), (''authors'', StrList []),
      (''source_url'', Str (str_of ''u''))]"

definition first_parse :: document where
  "first_parse = parse_dict ''old''"

definition second_parse :: document where
  "second_parse = parse_dict ''new''"

definition stored_doc :: document where
  "stored_doc =
     [(''title'', Str (str_of ''old'')), (''description'', Str (str_of ''d'')),
      (''article_text'', Str (str_of ''a'')), (''publication_datetime'', Str (str_of ''p'')),
      (''header_photo_url'', Null), (''header_photo_base64'', Null),
      (''keywords'', StrList []), (''authors'', StrList []),
      (''source_url'', Str (str_of ''u'')), (''parsed_at_utc'', Str (str_of ''t0'')),
      (''_id'', ObjectId 1)]"

section \<open>Pagination harvester\<close>

text \<open>
  \<open>parse_list\<close> drives a rendered page: it reads the article links of the DOM, clicks the
  reveal-more control, reads the links again, and so on. The class constants:
\<close>

definition MAX_SHOW_MORE_CLICKS :: nat where
  "MAX_SHOW_MORE_CLICKS = 10000"

definition STALL_LIMIT :: nat where
  "STALL_LIMIT = 10"

text \<open>
  The page is a collaborator; a call on it returns a value or raises. One round of the
  loop asks the page, in this order: the number of article anchors
  (\<open>page.locator(...).count()\<close>, not guarded), the number of reveal-more controls
  (\<open>btn.count()\<close>, not guarded), to scroll to the control (guarded, with a guarded fallback),
  to click it (guarded), and after the guarded waits the links of the DOM
  (\<open>page.eval_on_selector_all\<close>, not guarded), which may be \<open>None\<close> and whose entries may
  be \<open>None\<close>. For a guarded call only whether it succeeded matters. Dismissing overlays
  and the waits are guarded and give no value, so they leave no trace here.
\<close>

datatype 'a outcome = Raises | Returns 'a

record round =
  anchor_count :: "nat outcome"
  btn_count :: "nat outcome"
  scroll_ok :: bool
  scroll_fallback_ok :: bool
  click_ok :: bool
  hrefs :: "pystr option list option outcome"

text \<open>
  A listing: the links of the DOM before the first click, and the answers of the page in
  the round that follows the \<open>k\<close>-th click.
\<close>

record listing =
  initial_hrefs :: "pystr option list option outcome"
  rounds :: "nat \<Rightarrow> round"

text \<open>The local variables \<open>seen\<close>, \<open>ordered_urls\<close>, \<open>clicks\<close> and \<open>stalls\<close>.\<close>

record harvest_state =
  seen :: "pystr set"
  ordered :: "pystr list"
  clicks :: nat
  stalls :: nat

text \<open>\<open>(u or "").split("?")[0].strip()\<close>\<close>

definition normalize_url :: "pystr option \<Rightarrow> pystr" where
  "normalize_url u = strip (before_query (or_empty u))"

text \<open>\<open>collect_urls_from_dom\<close>: the normalised links that are not empty, in DOM order.\<close>

definition collect_urls_from_dom :: "pystr option list option outcome \<Rightarrow> exn + pystr list" where
  "collect_urls_from_dom r =
     (case r of
        Raises \<Rightarrow> Inl PlaywrightError
      | Returns hs \<Rightarrow>
          Inr (filter (\<lambda>u. u \<noteq> []) (map normalize_url (case hs of None \<Rightarrow> [] | Some l \<Rightarrow> l))))"

text \<open>
  \<open>click_show_more_and_wait\<close>: \<open>False\<close> when there is no control, when neither scrolling
  to it nor scrolling to the end of the page works, and when the click fails.
\<close>

definition click_show_more_and_wait :: "round \<Rightarrow> nat \<Rightarrow> exn + bool" where
  "click_show_more_and_wait r prev_anchor_count =
     (case btn_count r of
        Raises \<Rightarrow> Inl PlaywrightError
      | Returns c \<Rightarrow>
          if c = 0 then Inr False
          else if \<not> scroll_ok r \<and> \<not> scroll_fallback_ok r then Inr False
          else if \<not> click_ok r then Inr False
          else Inr True)"

text \<open>
  The \<open>for u in ...\<close> loop that both the first collection and every round run: a link
  not seen yet is recorded, and the loop breaks when the target is reached.
\<close>

fun add_urls :: "int \<Rightarrow> pystr list \<Rightarrow> harvest_state \<Rightarrow> harvest_state" where
  "add_urls posts_limit [] st = st"
| "add_urls posts_limit (u # us) st =
     (if u \<notin> seen st then
        (let st' = st\<lparr>seen := insert u (seen st), ordered := ordered st @ [u]\<rparr>
         in if int (length (ordered st')) \<ge> posts_limit then st'
            else add_urls posts_limit us st')
      else add_urls posts_limit us st)"

text \<open>The condition of the \<open>while\<close> loop.\<close>

definition loop_condition :: "int \<Rightarrow> harvest_state \<Rightarrow> bool" where
  "loop_condition posts_limit st \<longleftrightarrow>
     int (length (ordered st)) < posts_limit \<and> clicks st < MAX_SHOW_MORE_CLICKS \<and>
     stalls st < STALL_LIMIT"

text \<open>The body of the \<open>while\<close> loop: it raises, breaks, or ends with a new state.\<close>

datatype step = Raised exn | Break | Continue harvest_state

definition harvest_round :: "int \<Rightarrow> round \<Rightarrow> harvest_state \<Rightarrow> step" where
  "harvest_round posts_limit r st =
     (let prev_unique = length (ordered st) in
      case anchor_count r of
        Raises \<Rightarrow> Raised PlaywrightError
      | Returns prev_anchor_count \<Rightarrow>
          (case click_show_more_and_wait r prev_anchor_count of
             Inl e \<Rightarrow> Raised e
           | Inr ok \<Rightarrow>
               if \<not> ok then Break
               else
                 (case collect_urls_from_dom (hrefs r) of
                    Inl e \<Rightarrow> Raised e
                  | Inr current \<Rightarrow>
                      (let st1 = add_urls posts_limit current (st\<lparr>clicks := clicks st + 1\<rparr>)
                       in Continue
                            (if length (ordered st1) = prev_unique
                             then st1\<lparr>stalls := stalls st1 + 1\<rparr>
                             else st1\<lparr>stalls := 0\<rparr>)))))"

text \<open>
  The \<open>while\<close> loop. It ends because every round that continues makes one more click and
  the clicks are bounded by the ceiling.
\<close>

function harvest_loop :: "int \<Rightarrow> (nat \<Rightarrow> round) \<Rightarrow> harvest_state \<Rightarrow> exn + harvest_state" where
  "harvest_loop posts_limit rs st =
     (if loop_condition posts_limit st then
        (case harvest_round posts_limit (rs (clicks st)) st of
           Raised e \<Rightarrow> Inl e
         | Break \<Rightarrow> Inr st
         | Continue st' \<Rightarrow> harvest_loop posts_limit rs st')
      else Inr st)"
  by pat_completeness auto
termination
proof (relation "measure (\<lambda>(posts_limit, rs, st). MAX_SHOW_MORE_CLICKS - clicks st)")
  show "wf (measure (\<lambda>(posts_limit, rs, st). MAX_SHOW_MORE_CLICKS - clicks st))" by simp
next
  fix posts_limit :: int and rs :: "nat \<Rightarrow> round" and st st' :: harvest_state
  assume c: "loop_condition posts_limit st"
    and r: "harvest_round posts_limit (rs (clicks st)) st = Continue st'"
  have a: "\<And>us s. clicks (add_urls posts_limit us s) = clicks s"
  proof -
    fix us s show "clicks (add_urls posts_limit us s) = clicks s"
      by (induction us arbitrary: s) (auto simp: Let_def)
  qed
  have "clicks st' = clicks st + 1"
    using r by (auto simp: harvest_round_def Let_def a split: outcome.splits sum.splits if_splits)
  then show "((posts_limit, rs, st'), (posts_limit, rs, st))
      \<in> measure (\<lambda>(posts_limit, rs, st). MAX_SHOW_MORE_CLICKS - clicks st)"
    using c by (simp add: loop_condition_def diff_less_mono2)
qed

text \<open>\<open>xs[:n]\<close> for a Python integer \<open>n\<close>.\<close>

definition py_prefix :: "int \<Rightarrow> 'a list \<Rightarrow> 'a list" where
  "py_prefix n xs = (if 0 \<le> n then take (nat n) xs else take (length xs - nat (- n)) xs)"

text \<open>
  What one traversal leaves behind: whether \<open>page.close()\<close> was called, and the locations
  for which requests are emitted, or the exception that ended the traversal.
\<close>

record traversal =
  close_called :: bool
  outcome :: "exn + pystr list"

definition initial_state :: harvest_state where
  "initial_state = \<lparr> seen = {}, ordered = [], clicks = 0, stalls = 0 \<rparr>"

text \<open>The first collection and the loop.\<close>

definition harvest :: "int \<Rightarrow> listing \<Rightarrow> exn + harvest_state" where
  "harvest posts_limit page =
     (case collect_urls_from_dom (initial_hrefs page) of
        Inl e \<Rightarrow> Inl e
      | Inr urls \<Rightarrow>
          harvest_loop posts_limit (rounds page) (add_urls posts_limit urls initial_state))"

text \<open>
  \<open>parse_list\<close>: \<open>page.close()\<close> is the statement after the loop and there is no
  \<open>try\<close>/\<open>finally\<close> around the traversal, so an exception that leaves the first
  collection or a round leaves \<open>parse_list\<close> before the call. The requests are emitted
  for \<open>ordered_urls[: self.posts_limit]\<close>.
\<close>

definition parse_list :: "int \<Rightarrow> listing \<Rightarrow> traversal" where
  "parse_list posts_limit page =
     (case harvest posts_limit page of
        Inl e \<Rightarrow> \<lparr> close_called = False, outcome = Inl e \<rparr>
      | Inr st \<Rightarrow>
          \<lparr> close_called = True, outcome = Inr (py_prefix posts_limit (ordered st)) \<rparr>)"

text \<open>
  The states the traversal passes through between rounds, each with the links read so
  far, in the order they were read: the state after the first collection, and the state
  at the end of every round that the loop runs.
\<close>

inductive visited :: "int \<Rightarrow> listing \<Rightarrow> pystr list \<Rightarrow> harvest_state \<Rightarrow> bool"
  for posts_limit :: int and page :: listing where
  visit_first: "collect_urls_from_dom (initial_hrefs page) = Inr urls \<Longrightarrow>
      visited posts_limit page urls (add_urls posts_limit urls initial_state)"
| visit_round: "visited posts_limit page hist st \<Longrightarrow> loop_condition posts_limit st \<Longrightarrow>
      collect_urls_from_dom (hrefs (rounds page (clicks st))) = Inr current \<Longrightarrow>
      harvest_round posts_limit (rounds page (clicks st)) st = Continue st'
      \<Longrightarrow> visited posts_limit page (hist @ current) st'"

code_pred (modes: i \<Rightarrow> i \<Rightarrow> o \<Rightarrow> o \<Rightarrow> bool) visited .

text \<open>
  A listing with three links, the third of them again with a query string after the
  click, and two more links after the click; the same listing when the control is gone
  after the first click; the same listing when reading the links fails after a click.
  The states of the traversal of the first listing.
\<close>

definition link :: "string \<Rightarrow> pystr option" where
  "link s = Some (str_of s)"

definition answering_round :: "pystr option list \<Rightarrow> round" where
  "answering_round hs = \<lparr> anchor_count = Returns (length hs), btn_count = Returns 1,
     scroll_ok = True, scroll_fallback_ok = True, click_ok = True, hrefs = Returns (Some hs) \<rparr>"

definition sample_listing :: listing where
  "sample_listing = \<lparr> initial_hrefs = Returns (Some [link ''/n/1'', link ''/n/2'', link ''/n/3'']),
     rounds = (\<lambda>k. answering_round
       [link ''/n/1'', link ''/n/2'', link ''/n/3'', link '' /n/3?f=1'', link ''/n/4'', link ''/n/5'']) \<rparr>"

definition exhausted_listing :: listing where
  "exhausted_listing = sample_listing \<lparr> rounds := (\<lambda>k. if k = 0 then rounds sample_listing 0
       else (answering_round []) \<lparr> btn_count := Returns 0 \<rparr>) \<rparr>"

definition failing_listing :: listing where
  "failing_listing = sample_listing \<lparr> rounds := (\<lambda>k. (answering_round []) \<lparr> hrefs := Raises \<rparr>) \<rparr>"

definition first_state :: harvest_state where
  "first_state = \<lparr> seen = set (map str_of [''/n/1'', ''/n/2'', ''/n/3'']),
     ordered = map str_of [''/n/1'', ''/n/2'', ''/n/3''],
     clicks = 0, stalls = 0 \<rparr>"

definition sample_state :: harvest_state where
  "sample_state = \<lparr> seen = set (map str_of [''/n/1'', ''/n/2'', ''/n/3'', ''/n/4'', ''/n/5'']),
     ordered = map str_of [''/n/1'', ''/n/2'', ''/n/3'', ''/n/4'', ''/n/5''],
     clicks = 1, stalls = 0 \<rparr>"

section \<open>Whitespace normalisation\<close>

lemma isspace_32: "isspace 32"
  by (simp add: isspace_def)

lemma dropWhile_sub_ws:
  "xs = [] \<or> \<not> isspace (hd xs) \<Longrightarrow> dropWhile isspace (sub_ws xs) = sub_ws xs"
  by (cases xs) auto

lemma dropWhile_head: "dropWhile P xs = [] \<or> \<not> P (hd (dropWhile P xs))"
  using hd_dropWhile by blast

lemma sub_ws_head:
  "sub_ws xs = [] \<or> isspace (hd (sub_ws xs)) = isspace (hd xs)"
  by (cases xs) (auto simp: isspace_32)

lemma sub_ws_Nil_iff: "sub_ws xs = [] \<longleftrightarrow> xs = []"
  by (cases xs) auto

lemma single_spaced_sub_ws: "single_spaced (sub_ws xs)"
proof (induction xs rule: sub_ws.induct)
  case 1
  show ?case by simp
next
  case (2 c cs)
  show ?case
  proof (cases "isspace c")
    case True
    let ?r = "dropWhile isspace cs"
    have ih: "single_spaced (sub_ws ?r)" using 2(1) True by simp
    show ?thesis
    proof (cases "sub_ws ?r")
      case Nil
      with True show ?thesis by simp
    next
      case (Cons d ds)
      have "?r \<noteq> []" using Cons sub_ws_Nil_iff [of ?r] by auto
      then have "\<not> isspace (hd ?r)" using dropWhile_head [of isspace cs] by blast
      moreover have "isspace (hd (sub_ws ?r)) = isspace (hd ?r)"
        using sub_ws_head [of ?r] Cons by auto
      ultimately have "\<not> isspace d" using Cons by simp
      with True ih Cons show ?thesis by simp
    qed
  next
    case False
    have ih: "single_spaced (sub_ws cs)" using 2(2) False by simp
    show ?thesis
    proof (cases "sub_ws cs")
      case Nil
      with False show ?thesis by simp
    next
      case (Cons d ds)
      with False ih show ?thesis by simp
    qed
  qed
qed

lemma sub_ws_fixed: "single_spaced xs \<Longrightarrow> sub_ws xs = xs"
proof (induction xs rule: single_spaced.induct)
  case 1
  show ?case by simp
next
  case (2 c)
  then show ?case by simp
next
  case (3 c d cs)
  then show ?case by auto
qed

lemma single_spaced_tl: "single_spaced (c # cs) \<Longrightarrow> single_spaced cs"
  by (cases cs) auto

lemma single_spaced_dropWhile: "single_spaced xs \<Longrightarrow> single_spaced (dropWhile P xs)"
  by (induction xs) (auto dest: single_spaced_tl)

lemma single_spaced_append:
  "single_spaced (xs @ ys) \<longleftrightarrow>
     single_spaced xs \<and> single_spaced ys \<and>
     (xs \<noteq> [] \<and> ys \<noteq> [] \<longrightarrow> \<not> (isspace (last xs) \<and> isspace (hd ys)))"
proof (induction xs rule: single_spaced.induct)
  case 1
  show ?case by simp
next
  case (2 c)
  show ?case by (cases ys) auto
next
  case (3 c d cs)
  then show ?case by auto
qed

lemma single_spaced_rev: "single_spaced xs \<Longrightarrow> single_spaced (rev xs)"
proof (induction xs rule: single_spaced.induct)
  case 1
  show ?case by simp
next
  case (2 c)
  then show ?case by simp
next
  case (3 c d cs)
  then have "single_spaced (rev (d # cs))" by simp
  moreover have "single_spaced [c]" using 3(2) by simp
  moreover have "last (rev (d # cs)) = d" by simp
  ultimately show ?case
    using 3(2) single_spaced_append [of "rev (d # cs)" "[c]"] by auto
qed

lemma single_spaced_strip: "single_spaced xs \<Longrightarrow> single_spaced (strip xs)"
  unfolding strip_def
  by (intro single_spaced_dropWhile single_spaced_rev)

lemma dropWhile_id: "xs = [] \<or> \<not> P (hd xs) \<Longrightarrow> dropWhile P xs = xs"
  by (cases xs) auto

lemma strip_ends:
  "strip xs = [] \<or> (\<not> isspace (hd (strip xs)) \<and> \<not> isspace (last (strip xs)))"
proof (cases "strip xs = []")
  case True
  then show ?thesis by simp
next
  case False
  let ?a = "dropWhile isspace (rev xs)"
  let ?b = "dropWhile isspace (rev ?a)"
  have b: "strip xs = ?b" by (simp add: strip_def)
  have hd_b: "\<not> isspace (hd ?b)" using False b dropWhile_head [of isspace "rev ?a"] by auto
  have "?a \<noteq> []"
  proof
    assume "?a = []"
    then have "?b = dropWhile isspace (rev [])" by (simp only:)
    then have "?b = []" by (simp only: rev.simps dropWhile.simps)
    with False b show False by (simp only:)
  qed
  then have "\<not> isspace (hd ?a)" using dropWhile_head [of isspace "rev xs"] by blast
  then have "\<not> isspace (last (rev ?a))" using \<open>?a \<noteq> []\<close> by (simp add: last_rev)
  moreover have "last ?b = last (rev ?a)"
    using False b by (metis last_appendR takeWhile_dropWhile_id)
  ultimately show ?thesis using hd_b b by simp
qed

lemma strip_strip: "strip (strip xs) = strip xs"
proof (cases "strip xs = []")
  case True
  have "strip [] = []" by (simp add: strip_def)
  with True show ?thesis by simp
next
  case False
  let ?u = "strip xs"
  have ends: "\<not> isspace (hd ?u)" "\<not> isspace (last ?u)" using False strip_ends [of xs] by auto
  have "rev ?u \<noteq> []" using False by simp
  moreover have "hd (rev ?u) = last ?u" using False by (simp add: hd_rev)
  ultimately have "dropWhile isspace (rev ?u) = rev ?u"
    using ends(2) dropWhile_id [of "rev ?u" isspace] by simp
  then have "strip ?u = dropWhile isspace ?u" by (simp add: strip_def)
  then show ?thesis using ends(1) dropWhile_id [of ?u isspace] by simp
qed

text \<open>
  C10. Whitespace normalisation (\<open>clean_text\<close>: every run of whitespace becomes one
  space, then both ends are trimmed) is idempotent: normalising the normalisation of a
  string, absent or present, gives the same result as normalising it once.
\<close>

theorem clean_text_idempotent: "clean_text (Some (clean_text s)) = clean_text s"
proof -
  let ?t = "sub_ws (or_empty s)"
  have "single_spaced (strip ?t)"
    by (rule single_spaced_strip) (rule single_spaced_sub_ws)
  then have "sub_ws (strip ?t) = strip ?t" by (rule sub_ws_fixed)
  then show ?thesis by (simp add: clean_text_def or_empty_def strip_strip)
qed

section \<open>Extractor: fallback chains and authors\<close>

lemmas extractor_defs =
  parse_authors_def parse_keywords_def truthy_def or_empty_def cleaned_def clean_text_def
  strip_def str_of_def isspace_def dict_fromkeys_def py_or_def before_query_def

lemma remdups_snoc: "remdups (ys @ [x]) = filter (\<lambda>y. y \<noteq> x) (remdups ys) @ [x]"
  by (induction ys) auto

lemma fromkeys_into_eq:
  "fromkeys_into acc xs = acc @ rev (remdups (rev (filter (\<lambda>x. x \<notin> set acc) xs)))"
proof (induction xs arbitrary: acc)
  case Nil
  show ?case by simp
next
  case (Cons x xs)
  show ?case
  proof (cases "x \<in> set acc")
    case True
    then show ?thesis using Cons [of acc] by simp
  next
    case False
    have f: "filter (\<lambda>y. y \<notin> set (acc @ [x])) xs =
        filter (\<lambda>y. y \<noteq> x) (filter (\<lambda>y. y \<notin> set acc) xs)"
      by (induction xs) auto
    let ?F = "filter (\<lambda>y. y \<notin> set acc) xs"
    have r: "rev (remdups (rev ?F @ [x])) = x # rev (remdups (rev (filter (\<lambda>y. y \<noteq> x) ?F)))"
      by (simp add: remdups_snoc rev_filter remdups_filter)
    show ?thesis using False Cons [of "acc @ [x]"] f r by simp
  qed
qed

text \<open>\<open>dict.fromkeys\<close> keeps the first occurrence of every element, in order.\<close>

lemma dict_fromkeys_eq: "dict_fromkeys xs = rev (remdups (rev xs))"
  by (simp add: dict_fromkeys_def fromkeys_into_eq)

lemma distinct_dict_fromkeys: "distinct (dict_fromkeys xs)"
  by (simp add: dict_fromkeys_eq)

lemma set_dict_fromkeys: "set (dict_fromkeys xs) = set xs"
  by (simp add: dict_fromkeys_eq)

text \<open>
  On the branch taken when the page has no author meta element, the authors are
  deduplicated, and the example of the specification comes out as stated.
\<close>

lemma authors_text_branch_distinct:
  "\<not> truthy (meta_author r) \<Longrightarrow> distinct (authors (parse_article r))"
  by (simp add: parse_article_def parse_authors_def distinct_dict_fromkeys)

lemma authors_text_branch_example:
  "parse_authors None (map str_of [''A'', ''B'', ''A'', ''C'']) = map str_of [''A'', ''B'', ''C'']"
  by (simp add: extractor_defs)

text \<open>
  C9. The authors of a record are meant to be deduplicated, first occurrence kept,
  whichever branch produced them. The branch that splits the author meta element does
  not deduplicate: for the meta content \<open>A,B,A,C\<close> the authors are \<open>A, B, A, C\<close>, with
  \<open>A\<close> twice.
\<close>

theorem authors_meta_branch_keeps_duplicates:
  "authors (parse_article (r\<lparr>meta_author := Some (str_of ''A,B,A,C'')\<rparr>))
     = map str_of [''A'', ''B'', ''A'', ''C''] \<and>
   \<not> distinct (authors (parse_article (r\<lparr>meta_author := Some (str_of ''A,B,A,C'')\<rparr>)))"
  by (simp add: parse_article_def extractor_defs)

text \<open>
  C8. For each field with a fallback chain (title, description, publication datetime,
  keywords, authors): a primary source that is present and not empty is the one used;
  when the primary source is empty or absent, the field is computed from the secondary
  source; when every source of the chain is empty or absent, the field is the empty
  string (text fields) or the empty list (list fields). The fields are strings and lists,
  never \<open>None\<close>: \<open>clean_text\<close> and the list comprehensions always return a value.
\<close>

theorem extractor_fallback:
  "(truthy (h1_text r) \<longrightarrow> title (parse_article r) = clean_text (h1_text r)) \<and>
   (\<not> truthy (h1_text r) \<longrightarrow> title (parse_article r) = clean_text (og_title r)) \<and>
   (\<not> truthy (h1_text r) \<and> \<not> truthy (og_title r) \<longrightarrow> title (parse_article r) = []) \<and>
   (truthy (meta_description r) \<longrightarrow>
      description (parse_article r) = clean_text (meta_description r)) \<and>
   (\<not> truthy (meta_description r) \<longrightarrow>
      description (parse_article r) = clean_text (og_description r)) \<and>
   (\<not> truthy (meta_description r) \<and> \<not> truthy (og_description r) \<longrightarrow>
      description (parse_article r) = []) \<and>
   (truthy (published_time r) \<longrightarrow>
      publication_datetime (parse_article r) = clean_text (published_time r)) \<and>
   (\<not> truthy (published_time r) \<longrightarrow>
      publication_datetime (parse_article r) = clean_text (time_datetime r)) \<and>
   (\<not> truthy (published_time r) \<and> \<not> truthy (time_datetime r) \<longrightarrow>
      publication_datetime (parse_article r) = []) \<and>
   (\<not> truthy (meta_keywords r) \<longrightarrow>
      keywords_field (parse_article r) = cleaned (tag_texts r)) \<and>
   (\<not> truthy (meta_keywords r) \<and> tag_texts r = [] \<longrightarrow>
      keywords_field (parse_article r) = []) \<and>
   (\<not> truthy (meta_author r) \<longrightarrow>
      authors (parse_article r) = dict_fromkeys (cleaned (author_texts r))) \<and>
   (\<not> truthy (meta_author r) \<and> author_texts r = [] \<longrightarrow> authors (parse_article r) = [])"
  by (auto simp: parse_article_def parse_keywords_def parse_authors_def truthy_def py_or_def
      clean_text_def or_empty_def strip_def cleaned_def dict_fromkeys_def
      split: option.splits)

theorem extractor_fallback_witness:
  "title (parse_article (blank_response\<lparr>og_title := Some (str_of ''  Big  news '')\<rparr>))
     = str_of ''Big news'' \<and>
   keywords_field (parse_article (blank_response\<lparr>tag_texts := [str_of '' a '', str_of '' '']\<rparr>))
     = [str_of ''a''] \<and>
   authors (parse_article (blank_response\<lparr>author_texts := [str_of ''A'', str_of ''A'']\<rparr>))
     = [str_of ''A''] \<and>
   title (parse_article blank_response) = [] \<and>
   description (parse_article blank_response) = [] \<and>
   publication_datetime (parse_article blank_response) = [] \<and>
   keywords_field (parse_article blank_response) = [] \<and>
   authors (parse_article blank_response) = []"
  using extractor_fallback [of "blank_response\<lparr>og_title := Some (str_of ''  Big  news '')\<rparr>"]
    extractor_fallback [of "blank_response\<lparr>tag_texts := [str_of '' a '', str_of '' '']\<rparr>"]
    extractor_fallback [of "blank_response\<lparr>author_texts := [str_of ''A'', str_of ''A'']\<rparr>"]
    extractor_fallback [of blank_response]
  by (simp add: blank_response_def extractor_defs)

section \<open>Image post-processor: failure modes\<close>

lemmas photo_defs =
  photo_process_item_def download_photo_to_base64_def compress_image_def sample_item_def
  sample_world_def truthy_def or_empty_def str_of_def

text \<open>
  C2, as the specification states it, fails: after a fetch answered with status 404 the
  encoded-photo field is the empty string, not \<open>None\<close>.
\<close>

theorem photo_non_success_not_null:
  "photo_process_item (sample_world (Response 404 (Inr []))) 35 sample_item
     = Inr (sample_item\<lparr>header_photo_base64 := Some []\<rparr>) \<and>
   header_photo_base64 (sample_item\<lparr>header_photo_base64 := Some []\<rparr>) \<noteq> None"
  by (simp add: photo_defs)

text \<open>
  C2, amended. For a record with a photo URL (present and not empty): when the fetch
  answers with a status other than 200, the encoded-photo field becomes the empty string
  and the photo URL stays; when the URL is malformed, both fields become \<open>None\<close>. In both
  cases every other field of the record is unchanged.
\<close>

theorem photo_failure_fields:
  assumes "truthy (header_photo_url it)"
  shows "(session_get w (or_empty (header_photo_url it)) = Response status rd \<and> status \<noteq> 200 \<longrightarrow>
            photo_process_item w q it = Inr (it\<lparr>header_photo_base64 := Some []\<rparr>)) \<and>
         (session_get w (or_empty (header_photo_url it)) = GetRaises InvalidUrlClientError \<longrightarrow>
            photo_process_item w q it =
              Inr (it\<lparr>header_photo_url := None, header_photo_base64 := None\<rparr>))"
  using assms by (simp add: photo_process_item_def download_photo_to_base64_def)

theorem photo_failure_fields_witness:
  "photo_process_item (sample_world (Response 503 (Inr []))) 35 sample_item
     = Inr (sample_item\<lparr>header_photo_base64 := Some []\<rparr>) \<and>
   photo_process_item (sample_world (GetRaises InvalidUrlClientError)) 35 sample_item
     = Inr (sample_item\<lparr>header_photo_url := None, header_photo_base64 := None\<rparr>)"
  using
    photo_failure_fields [of sample_item "sample_world (Response 503 (Inr []))" 503 "Inr []" 35]
    photo_failure_fields [of sample_item "sample_world (GetRaises InvalidUrlClientError)"
      503 "Inr []" 35]
  by (simp add: sample_item_def sample_world_def truthy_def or_empty_def str_of_def)

text \<open>
  C3, as the specification states it, fails: when the image bytes cannot be decoded, and
  when the fetch fails with an error other than a malformed URL, the step raises and the
  record is not returned.
\<close>

theorem photo_failure_raises:
  "photo_process_item (sample_world (Response 200 (Inr [1, 2, 3]))) 35 sample_item
     = Inl ImageError \<and>
   photo_process_item (sample_world (GetRaises ClientError)) 35 sample_item = Inl ClientError"
  by (simp add: photo_defs)

text \<open>
  C3, amended. For a record with a photo URL, the step returns the record without a usable
  encoded photo when the fetch answers with a status other than 200 or the URL is
  malformed. Every other failure leaves the step as an exception and the record is not
  returned: a fetch error other than a malformed URL, a body that cannot be read, bytes
  that cannot be decoded, and a failure to re-encode.
\<close>

theorem photo_degrades_or_raises:
  assumes "truthy (header_photo_url it)" and "u = or_empty (header_photo_url it)"
  shows "(session_get w u = Response status rd \<and> status \<noteq> 200 \<longrightarrow>
            (\<exists>it'. photo_process_item w q it = Inr it' \<and> \<not> truthy (header_photo_base64 it'))) \<and>
         (session_get w u = GetRaises InvalidUrlClientError \<longrightarrow>
            (\<exists>it'. photo_process_item w q it = Inr it' \<and> \<not> truthy (header_photo_base64 it'))) \<and>
         (session_get w u = GetRaises e \<and> e \<noteq> InvalidUrlClientError \<longrightarrow>
            photo_process_item w q it = Inl e) \<and>
         (session_get w u = Response 200 (Inl e) \<and> e \<noteq> InvalidUrlClientError \<longrightarrow>
            photo_process_item w q it = Inl e) \<and>
         (session_get w u = Response 200 (Inr content) \<and> image_open w content = None \<longrightarrow>
            photo_process_item w q it = Inl ImageError) \<and>
         (session_get w u = Response 200 (Inr content) \<and> image_open w content = Some img \<and>
          save_jpeg w q (if mode img = ''RGBA'' \<or> mode img = ''P'' then convert_rgb w img else img)
            = None \<longrightarrow>
            photo_process_item w q it = Inl ImageError)"
  using assms
  by (simp add: photo_process_item_def download_photo_to_base64_def compress_image_def
      truthy_def)

theorem photo_degrades_or_raises_witness:
  "(\<exists>it'. photo_process_item (sample_world (Response 404 (Inr []))) 35 sample_item = Inr it' \<and>
      \<not> truthy (header_photo_base64 it')) \<and>
   photo_process_item (sample_world (GetRaises ClientError)) 35 sample_item = Inl ClientError \<and>
   photo_process_item (sample_world (Response 200 (Inr []))) 35 sample_item = Inl ImageError"
  using
    photo_degrades_or_raises [of sample_item "str_of ''http://x/p.png''"
      "sample_world (Response 404 (Inr []))" 404 "Inr []" 35 ClientError "[]"]
    photo_degrades_or_raises [of sample_item "str_of ''http://x/p.png''"
      "sample_world (GetRaises ClientError)" 404 "Inr []" 35 ClientError "[]"]
    photo_degrades_or_raises [of sample_item "str_of ''http://x/p.png''"
      "sample_world (Response 200 (Inr []))" 404 "Inr []" 35 ClientError "[]"]
  by (simp add: sample_item_def sample_world_def truthy_def or_empty_def str_of_def)

section \<open>Storage sink: the write on a conflict\<close>

lemmas mongo_defs =
  mongo_process_item_def insert_one_def update_one_def prepare_def setdefault_def
  with_id_def duplicate_key_def field_def stored_doc_def store_ok_def

lemma distinct_map_unique:
  "distinct (map f docs) \<Longrightarrow> d \<in> set docs \<Longrightarrow> x \<in> set docs \<Longrightarrow> f x = f d \<Longrightarrow> x = d"
  by (simp add: distinct_map inj_on_def)

lemma find_first:
  "d \<in> set docs \<Longrightarrow> p d \<Longrightarrow> (\<And>x. x \<in> set docs \<Longrightarrow> p x \<Longrightarrow> x = d) \<Longrightarrow>
   List.find p docs = Some d"
proof (induction docs)
  case Nil
  then show ?case by simp
next
  case (Cons a docs)
  show ?case
  proof (cases "p a")
    case True
    then have "a = d" using Cons.prems(3) [of a] by simp
    with True show ?thesis by simp
  next
    case False
    then have "d \<in> set docs" using Cons.prems(1,2) by auto
    moreover have "\<And>x. x \<in> set docs \<Longrightarrow> p x \<Longrightarrow> x = d" using Cons.prems(3) by simp
    ultimately have "List.find p docs = Some d" using Cons.IH Cons.prems(2) by blast
    with False show ?thesis by simp
  qed
qed

lemma find_unique:
  assumes "distinct (map f docs)" and "d \<in> set docs" and "f d = v"
  shows "List.find (\<lambda>x. f x = v) docs = Some d"
proof (rule find_first)
  show "d \<in> set docs" by (rule assms(2))
  show "f d = v" by (rule assms(3))
  fix x assume "x \<in> set docs" and "f x = v"
  then show "x = d" using assms distinct_map_unique [of f docs d x] by simp
qed

lemma map_of_snoc_other: "k' \<noteq> k \<Longrightarrow> map_of (d @ [(k, v)]) k' = map_of d k'"
  by (induction d) auto

lemma map_of_setdefault_other: "k' \<noteq> k \<Longrightarrow> map_of (setdefault k v d) k' = map_of d k'"
  by (simp add: setdefault_def map_of_snoc_other del: map_of_append)

lemma map_of_prepare_source_url:
  "map_of (prepare now item_dict) ''source_url'' = map_of item_dict ''source_url''"
  by (simp add: prepare_def update_conv' map_of_setdefault_other)

lemma map_of_with_id:
  "k \<noteq> ''_id'' \<Longrightarrow> map_of (with_id fresh doc) k = map_of doc k"
  by (simp add: with_id_def map_of_snoc_other del: map_of_append)

lemma duplicate_keyI:
  "d \<in> set docs \<Longrightarrow> field d ''source_url'' = field doc ''source_url'' \<Longrightarrow> duplicate_key doc docs"
  by (auto simp: duplicate_key_def list_ex_iff)

lemma map_of_prepare_id: "map_of (prepare now item_dict) ''_id'' = map_of item_dict ''_id''"
  by (simp add: prepare_def update_conv' map_of_setdefault_other)

lemma map_of_snoc_same: "map_of d k = None \<Longrightarrow> map_of (d @ [(k, v)]) k = Some v"
  by (induction d) auto

lemma map_of_with_id_fresh:
  "map_of doc ''_id'' = None \<Longrightarrow> map_of (with_id fresh doc) ''_id'' = Some (ObjectId fresh)"
  by (simp add: with_id_def map_of_snoc_same del: map_of_append)

text \<open>
  The sink writes the first parse of an article as it is, with the time stamp and the
  \<open>_id\<close> of the driver.
\<close>

lemma mongo_first_write:
  "mongo_process_item 1 (str_of ''t0'') first_parse [] = Inr [stored_doc]"
  by (simp add: mongo_defs first_parse_def parse_dict_def str_of_def Let_def)

text \<open>
  C1. A later parse of a stored article is not written at all. A record of the spider has
  no \<open>_id\<close>; \<open>insert_one\<close> stamps a fresh one into the dictionary and fails on the unique
  index; the same dictionary is then the \<open>$set\<close> document of \<open>update_one\<close>, which would
  change the \<open>_id\<close> of the stored document, so the store refuses the update and
  \<open>process_item\<close> raises \<open>WriteError\<close>. The collection is as it was: the stored document
  is neither replaced nor updated.
\<close>

theorem mongo_conflict_fresh_id_rejected:
  assumes ok: "store_ok docs"
    and d: "d \<in> set docs" "field d ''source_url'' = v"
    and url: "map_of item_dict ''source_url'' = Some v"
    and noid: "map_of item_dict ''_id'' = None"
    and fresh: "field d ''_id'' \<noteq> ObjectId fresh"
  shows "mongo_process_item fresh now item_dict docs = Inl WriteError"
proof -
  let ?doc = "with_id fresh (prepare now item_dict)"
  let ?new = "AList.merge d ?doc"
  let ?p = "\<lambda>x. field x ''source_url'' = v"
  have src: "map_of ?doc ''source_url'' = Some v"
    using url by (simp add: map_of_with_id map_of_prepare_source_url)
  then have fsrc: "field ?doc ''source_url'' = v" by (simp add: field_def)
  have dup: "duplicate_key ?doc docs" using d fsrc by (auto intro: duplicate_keyI)
  have dist: "distinct (map (\<lambda>d. field d ''source_url'') docs)" using ok by (simp add: store_ok_def)
  have fnd: "List.find ?p docs = Some d"
    using find_unique [where f = "\<lambda>d. field d ''source_url''", OF dist d] .
  have "map_of ?doc ''_id'' = Some (ObjectId fresh)"
    using noid by (simp add: map_of_with_id_fresh map_of_prepare_id)
  then have "field ?new ''_id'' = ObjectId fresh" by (simp add: field_def merge_conv')
  then have "field ?new ''_id'' \<noteq> field d ''_id''" using fresh by simp
  then have "update_one fresh v ?doc docs = Inl WriteError"
    unfolding update_one_def fnd by (simp only: option.case Let_def if_True simp_thms)
  then show ?thesis
    using dup src by (simp add: mongo_process_item_def insert_one_def Let_def)
qed

theorem mongo_conflict_fresh_id_rejected_witness:
  "store_ok [stored_doc] \<and>
   field stored_doc ''source_url'' = Str (str_of ''u'') \<and>
   map_of second_parse ''source_url'' = Some (Str (str_of ''u'')) \<and>
   map_of second_parse ''_id'' = None \<and>
   mongo_process_item 2 (str_of ''t1'') second_parse [stored_doc] = Inl WriteError"
proof -
  have ok: "store_ok [stored_doc]" by (simp add: store_ok_def)
  have d: "stored_doc \<in> set [stored_doc]" by simp
  have v: "field stored_doc ''source_url'' = Str (str_of ''u'')"
    by (simp add: field_def stored_doc_def)
  have url: "map_of second_parse ''source_url'' = Some (Str (str_of ''u''))"
    by (simp add: second_parse_def parse_dict_def)
  have noid: "map_of second_parse ''_id'' = None"
    by (simp add: second_parse_def parse_dict_def)
  have fresh: "field stored_doc ''_id'' \<noteq> ObjectId 2"
    by (simp add: field_def stored_doc_def)
  have "mongo_process_item 2 (str_of ''t1'') second_parse [stored_doc] = Inl WriteError"
    using ok d v url noid fresh by (rule mongo_conflict_fresh_id_rejected)
  with ok v url noid show ?thesis by simp
qed

section \<open>Pagination harvester: deduplication, bounds and the stall counter\<close>

lemma add_urls_clicks: "clicks (add_urls n us st) = clicks st"
  by (induction us arbitrary: st) (auto simp: Let_def)

lemma add_urls_stalls: "stalls (add_urls n us st) = stalls st"
  by (induction us arbitrary: st) (auto simp: Let_def)

lemma fromkeys_into_prefix: "prefix acc (fromkeys_into acc xs)"
  by (simp add: fromkeys_into_eq)

lemma fromkeys_into_append:
  "fromkeys_into acc (xs @ ys) = fromkeys_into (fromkeys_into acc xs) ys"
  by (induction xs arbitrary: acc) auto

lemma add_urls_extends: "prefix (ordered st) (ordered (add_urls n us st))"
proof (induction us arbitrary: st)
  case Nil
  show ?case by simp
next
  case (Cons u us)
  let ?st' = "st\<lparr>seen := insert u (seen st), ordered := ordered st @ [u]\<rparr>"
  have "prefix (ordered st) (ordered ?st')" by simp
  moreover have "prefix (ordered ?st') (ordered (add_urls n us ?st'))" by (rule Cons.IH)
  ultimately have "prefix (ordered st) (ordered (add_urls n us ?st'))"
    by (rule prefix_order.trans)
  then show ?case using Cons.IH [of st] by (simp add: Let_def)
qed

text \<open>
  The \<open>for\<close> loop keeps \<open>seen\<close> the set of \<open>ordered_urls\<close>, and it appends the links
  that are new, in the order of their first occurrence, up to the break.
\<close>

lemma add_urls_spec:
  assumes "set (ordered st) = seen st"
  shows "set (ordered (add_urls n us st)) = seen (add_urls n us st) \<and>
         prefix (ordered (add_urls n us st)) (fromkeys_into (ordered st) us) \<and>
         (int (length (ordered (add_urls n us st))) < n \<longrightarrow>
            ordered (add_urls n us st) = fromkeys_into (ordered st) us)"
  using assms
proof (induction us arbitrary: st)
  case Nil
  then show ?case by simp
next
  case (Cons u us)
  show ?case
  proof (cases "u \<in> seen st")
    case True
    then have "u \<in> set (ordered st)" using Cons.prems by simp
    then show ?thesis using True Cons.IH [OF Cons.prems] by simp
  next
    case False
    let ?st' = "st\<lparr>seen := insert u (seen st), ordered := ordered st @ [u]\<rparr>"
    have notin: "u \<notin> set (ordered st)" using False Cons.prems by simp
    have inv': "set (ordered ?st') = seen ?st'" using Cons.prems by simp
    show ?thesis
    proof (cases "int (length (ordered ?st')) \<ge> n")
      case True
      then have eq: "add_urls n (u # us) st = ?st'" using False by (simp add: Let_def)
      have "prefix (ordered st @ [u]) (fromkeys_into (ordered st @ [u]) us)"
        by (rule fromkeys_into_prefix)
      then show ?thesis using True inv' notin unfolding eq by simp
    next
      case stop: False
      then have eq: "add_urls n (u # us) st = add_urls n us ?st'"
        using False by (simp add: Let_def)
      show ?thesis using Cons.IH [OF inv'] notin unfolding eq by simp
    qed
  qed
qed

lemma add_urls_all_seen: "set us \<subseteq> seen st \<Longrightarrow> add_urls n us st = st"
  by (induction us) auto

lemma add_urls_new:
  "\<exists>u \<in> set us. u \<notin> seen st \<Longrightarrow> length (ordered st) < length (ordered (add_urls n us st))"
proof (induction us)
  case Nil
  then show ?case by simp
next
  case (Cons u us)
  show ?case
  proof (cases "u \<in> seen st")
    case True
    then show ?thesis using Cons by auto
  next
    case False
    let ?st' = "st\<lparr>seen := insert u (seen st), ordered := ordered st @ [u]\<rparr>"
    have "prefix (ordered ?st') (ordered (add_urls n us ?st'))" by (rule add_urls_extends)
    then have "length (ordered ?st') \<le> length (ordered (add_urls n us ?st'))"
      by (rule prefix_length_le)
    then show ?thesis using False by (simp add: Let_def)
  qed
qed

lemma add_urls_nonpos:
  "n \<le> 0 \<Longrightarrow> length (ordered (add_urls n us st)) \<le> length (ordered st) + 1"
  by (induction us arbitrary: st) (auto simp: Let_def)

lemma harvest_round_Continue:
  assumes "harvest_round n r st = Continue st'"
  shows "\<exists>current. collect_urls_from_dom (hrefs r) = Inr current \<and>
           ordered st' = ordered (add_urls n current (st\<lparr>clicks := clicks st + 1\<rparr>)) \<and>
           seen st' = seen (add_urls n current (st\<lparr>clicks := clicks st + 1\<rparr>)) \<and>
           clicks st' = clicks st + 1 \<and>
           stalls st' = (if length (ordered st') = length (ordered st) then stalls st + 1 else 0)"
  using assms
  by (auto simp: harvest_round_def Let_def add_urls_clicks add_urls_stalls
      split: outcome.splits sum.splits if_splits)

lemma harvest_round_Break:
  assumes "harvest_round n r st = Break"
  shows "\<exists>c. anchor_count r = Returns c \<and> click_show_more_and_wait r c = Inr False"
  using assms
  by (auto simp: harvest_round_def Let_def split: outcome.splits sum.splits if_splits)


lemma harvest_loop_unfold:
  "harvest_loop n rs st =
     (if loop_condition n st then
        (case harvest_round n (rs (clicks st)) st of
           Raised e \<Rightarrow> Inl e
         | Break \<Rightarrow> Inr st
         | Continue st' \<Rightarrow> harvest_loop n rs st')
      else Inr st)"
  by (rule harvest_loop.simps)

lemma harvest_loop_stop: "\<not> loop_condition n st \<Longrightarrow> harvest_loop n rs st = Inr st"
  by (subst harvest_loop_unfold) simp

text \<open>The loop is left normally when its condition fails or the body breaks.\<close>

lemma harvest_loop_exit:
  "harvest_loop n rs st0 = Inr st \<Longrightarrow>
     \<not> loop_condition n st \<or> harvest_round n (rs (clicks st)) st = Break"
proof (induction n rs st0 rule: harvest_loop.induct)
  case (1 posts_limit rs st0)
  show ?case
  proof (cases "loop_condition posts_limit st0")
    case False
    then have "harvest_loop posts_limit rs st0 = Inr st0" by (rule harvest_loop_stop)
    with "1.prems" False show ?thesis by simp
  next
    case True
    show ?thesis
    proof (cases "harvest_round posts_limit (rs (clicks st0)) st0")
      case (Raised e)
      have "harvest_loop posts_limit rs st0 = Inl e"
        by (subst harvest_loop_unfold) (simp add: True Raised)
      with "1.prems" show ?thesis by simp
    next
      case Break
      have "harvest_loop posts_limit rs st0 = Inr st0"
        by (subst harvest_loop_unfold) (simp add: True Break)
      with "1.prems" Break show ?thesis by simp
    next
      case (Continue st')
      have "harvest_loop posts_limit rs st0 = harvest_loop posts_limit rs st'"
        by (subst harvest_loop_unfold) (simp add: True Continue)
      with "1.prems" have "harvest_loop posts_limit rs st' = Inr st" by simp
      with "1.IH" [OF True Continue] show ?thesis .
    qed
  qed
qed



text \<open>The state in which the loop is left is one of the states between rounds.\<close>

lemma harvest_loop_visited:
  "rs = rounds page \<Longrightarrow> visited n page hist st0 \<Longrightarrow> harvest_loop n rs st0 = Inr st \<Longrightarrow>
     \<exists>hist'. visited n page hist' st"
proof (induction n rs st0 arbitrary: hist rule: harvest_loop.induct)
  case (1 posts_limit rs st0)
  show ?case
  proof (cases "loop_condition posts_limit st0")
    case False
    then have "harvest_loop posts_limit rs st0 = Inr st0" by (rule harvest_loop_stop)
    with "1.prems" show ?thesis by auto
  next
    case True
    show ?thesis
    proof (cases "harvest_round posts_limit (rs (clicks st0)) st0")
      case (Raised e)
      have "harvest_loop posts_limit rs st0 = Inl e"
        by (subst harvest_loop_unfold) (simp add: True Raised)
      with "1.prems" show ?thesis by simp
    next
      case Break
      have "harvest_loop posts_limit rs st0 = Inr st0"
        by (subst harvest_loop_unfold) (simp add: True Break)
      with "1.prems" show ?thesis by auto
    next
      case (Continue st')
      have "harvest_loop posts_limit rs st0 = harvest_loop posts_limit rs st'"
        by (subst harvest_loop_unfold) (simp add: True Continue)
      with "1.prems" have res: "harvest_loop posts_limit rs st' = Inr st" by simp
      obtain current where
        cur: "collect_urls_from_dom (hrefs (rs (clicks st0))) = Inr current"
        using harvest_round_Continue [OF Continue] by blast
      have "visited posts_limit page (hist @ current) st'"
        using "1.prems"(2) True cur Continue unfolding "1.prems"(1) by (rule visit_round)
      from "1.IH" [OF True Continue "1.prems"(1) this res] show ?thesis .
    qed
  qed
qed

lemma harvest_visited:
  assumes "harvest n page = Inr st"
  shows "\<exists>hist. visited n page hist st"
proof -
  obtain urls where u: "collect_urls_from_dom (initial_hrefs page) = Inr urls"
    and l: "harvest_loop n (rounds page) (add_urls n urls initial_state) = Inr st"
    using assms by (auto simp: harvest_def split: sum.splits)
  have "visited n page urls (add_urls n urls initial_state)" using u by (rule visit_first)
  with l show ?thesis using harvest_loop_visited [OF refl] by blast
qed

lemma visited_invariant:
  assumes "visited n page hist st"
  shows "set (ordered st) = seen st \<and> prefix (ordered st) (dict_fromkeys hist) \<and>
         (int (length (ordered st)) < n \<longrightarrow> ordered st = dict_fromkeys hist)"
  using assms
proof (induction rule: visited.induct)
  case (visit_first urls)
  have "set (ordered initial_state) = seen initial_state" by (simp add: initial_state_def)
  from add_urls_spec [OF this, of n urls]
  show ?case by (simp add: dict_fromkeys_def initial_state_def)
next
  case (visit_round hist st current st')
  let ?st0 = "st\<lparr>clicks := clicks st + 1\<rparr>"
  have len: "int (length (ordered st)) < n"
    using visit_round.hyps(2) by (simp add: loop_condition_def)
  then have exact: "ordered st = dict_fromkeys hist" using visit_round.IH by simp
  obtain cur where cur: "collect_urls_from_dom (hrefs (rounds page (clicks st))) = Inr cur"
    and o: "ordered st' = ordered (add_urls n cur ?st0)"
    and s: "seen st' = seen (add_urls n cur ?st0)"
    using harvest_round_Continue [OF visit_round.hyps(4)] by blast
  have cc: "cur = current" using cur visit_round.hyps(3) by simp
  have "set (ordered ?st0) = seen ?st0" using visit_round.IH by simp
  from add_urls_spec [OF this, of n current]
  have spec: "set (ordered st') = seen st' \<and>
      prefix (ordered st') (fromkeys_into (ordered st) current) \<and>
      (int (length (ordered st')) < n \<longrightarrow> ordered st' = fromkeys_into (ordered st) current)"
    using o s cc by simp
  have "fromkeys_into (ordered st) current = dict_fromkeys (hist @ current)"
    using exact by (simp add: dict_fromkeys_def fromkeys_into_append)
  with spec show ?case by simp
qed

lemma prefix_distinct: "prefix xs ys \<Longrightarrow> distinct ys \<Longrightarrow> distinct xs"
  by (auto simp: prefix_def)

text \<open>In particular the locations with which the traversal ends have no duplicates.\<close>

lemma harvest_distinct:
  assumes "harvest n page = Inr st"
  shows "distinct (ordered st) \<and> length (ordered st) = card (seen st)"
proof -
  obtain hist where "visited n page hist st" using harvest_visited [OF assms] by blast
  then have inv: "set (ordered st) = seen st" "prefix (ordered st) (dict_fromkeys hist)"
    using visited_invariant by simp_all
  have d: "distinct (ordered st)"
    using inv(2) distinct_dict_fromkeys by (rule prefix_distinct)
  then have "card (set (ordered st)) = length (ordered st)" by (rule distinct_card)
  then show ?thesis using inv d by simp
qed

lemma length_py_prefix: "0 \<le> n \<Longrightarrow> length (py_prefix n xs) = min (nat n) (length xs)"
  by (simp add: py_prefix_def)

text \<open>With a target that is not positive no request is emitted.\<close>

lemma harvest_nonpos:
  assumes "n \<le> 0" and "harvest n page = Inr st"
  shows "py_prefix n (ordered st) = []"
proof -
  obtain urls where u: "harvest_loop n (rounds page) (add_urls n urls initial_state) = Inr st"
    using assms(2) by (auto simp: harvest_def split: sum.splits)
  have "\<not> loop_condition n (add_urls n urls initial_state)"
    using assms(1) by (simp add: loop_condition_def)
  then have "harvest_loop n (rounds page) (add_urls n urls initial_state) =
      Inr (add_urls n urls initial_state)"
    by (rule harvest_loop_stop)
  with u have "st = add_urls n urls initial_state" by simp
  then have "length (ordered st) \<le> 1"
    using add_urls_nonpos [OF assms(1), of urls initial_state] by (simp add: initial_state_def)
  then show ?thesis using assms(1) by (cases "n = 0") (auto simp: py_prefix_def)
qed

subsection \<open>The sample listings\<close>

lemmas harvester_defs = collect_urls_from_dom_def normalize_url_def strip_def before_query_def
  or_empty_def str_of_def isspace_def link_def answering_round_def
  sample_listing_def exhausted_listing_def failing_listing_def sample_state_def first_state_def
  initial_state_def loop_condition_def harvest_round_def click_show_more_and_wait_def
  MAX_SHOW_MORE_CLICKS_def STALL_LIMIT_def Let_def

lemma sample_initial:
  "collect_urls_from_dom (initial_hrefs sample_listing) = Inr (map str_of [''/n/1'', ''/n/2'', ''/n/3''])"
  by (simp add: harvester_defs)

lemma sample_round_hrefs:
  "collect_urls_from_dom (hrefs (rounds sample_listing k)) =
     Inr (map str_of [''/n/1'', ''/n/2'', ''/n/3'', ''/n/3'', ''/n/4'', ''/n/5''])"
  by (simp add: harvester_defs)

lemma sample_first_state:
  "add_urls 5 (map str_of [''/n/1'', ''/n/2'', ''/n/3'']) initial_state = first_state"
  by (simp add: harvester_defs insert_commute)

lemma sample_first_state_9:
  "add_urls 9 (map str_of [''/n/1'', ''/n/2'', ''/n/3'']) initial_state = first_state"
  by (simp add: harvester_defs insert_commute)

lemma sample_round:
  "harvest_round 5 (rounds sample_listing k) first_state = Continue sample_state"
  by (simp add: harvester_defs insert_commute)

lemma sample_round_9:
  "harvest_round 9 (rounds sample_listing k) first_state = Continue sample_state"
  by (simp add: harvester_defs insert_commute)

lemma sample_stalled_round:
  "harvest_round 9 (rounds sample_listing k) sample_state =
     Continue (sample_state \<lparr> clicks := 2, stalls := 1 \<rparr>)"
  by (simp add: harvester_defs insert_commute)

text \<open>
  With target 5 the traversal of the sample listing makes one click and ends with the
  five locations in the order of their discovery.
\<close>

lemma sample_harvest: "harvest 5 sample_listing = Inr sample_state"
proof -
  have c0: "loop_condition 5 first_state" by (simp add: harvester_defs)
  have c1: "\<not> loop_condition 5 sample_state" by (simp add: harvester_defs)
  have "harvest_loop 5 (rounds sample_listing) sample_state = Inr sample_state"
    using c1 by (rule harvest_loop_stop)
  then have "harvest_loop 5 (rounds sample_listing) first_state = Inr sample_state"
    by (subst harvest_loop_unfold) (simp add: c0 sample_round)
  then show ?thesis unfolding harvest_def sample_initial sum.case sample_first_state .
qed

lemma exhausted_harvest: "harvest 9 exhausted_listing = Inr sample_state"
proof -
  have i: "collect_urls_from_dom (initial_hrefs exhausted_listing) =
      Inr (map str_of [''/n/1'', ''/n/2'', ''/n/3''])"
    by (simp add: harvester_defs)
  have k0: "clicks first_state = 0" by (simp add: first_state_def)
  have k1: "clicks sample_state = 1" by (simp add: sample_state_def)
  have r0: "rounds exhausted_listing 0 = rounds sample_listing 0"
    by (simp add: exhausted_listing_def)
  have r1: "harvest_round 9 (rounds exhausted_listing (Suc 0)) sample_state = Break"
    by (simp add: harvester_defs)
  have c0: "loop_condition 9 first_state" by (simp add: harvester_defs)
  have c1: "loop_condition 9 sample_state" by (simp add: harvester_defs)
  have "harvest_loop 9 (rounds exhausted_listing) sample_state = Inr sample_state"
    by (subst harvest_loop_unfold) (simp add: c1 k1 r1)
  then have "harvest_loop 9 (rounds exhausted_listing) first_state = Inr sample_state"
    by (subst harvest_loop_unfold) (simp add: c0 k0 r0 sample_round_9)
  then show ?thesis unfolding harvest_def i sum.case sample_first_state_9 .
qed


subsection \<open>Properties of the traversal\<close>

text \<open>
  C5. In every state between rounds, \<open>hist\<close> being the links read so far in the order
  they were read: the ordered sequence has no duplicates, it lists exactly the seen set,
  its length is the cardinality of the seen set, and it is a prefix of the links read so
  far in the order of their first occurrence; as long as the target is not reached it is
  all of them.
\<close>

theorem visited_no_duplicates:
  assumes "visited n page hist st"
  shows "distinct (ordered st) \<and> set (ordered st) = seen st \<and>
         length (ordered st) = card (seen st) \<and> prefix (ordered st) (dict_fromkeys hist) \<and>
         (int (length (ordered st)) < n \<longrightarrow> ordered st = dict_fromkeys hist)"
proof -
  have inv: "set (ordered st) = seen st" "prefix (ordered st) (dict_fromkeys hist)"
    "int (length (ordered st)) < n \<longrightarrow> ordered st = dict_fromkeys hist"
    using visited_invariant [OF assms] by simp_all
  have d: "distinct (ordered st)"
    using inv(2) distinct_dict_fromkeys by (rule prefix_distinct)
  then have "card (set (ordered st)) = length (ordered st)" by (rule distinct_card)
  then show ?thesis using inv d by simp
qed

theorem visited_no_duplicates_witness:
  "visited 5 sample_listing
     (map str_of [''/n/1'', ''/n/2'', ''/n/3''] @
      map str_of [''/n/1'', ''/n/2'', ''/n/3'', ''/n/3'', ''/n/4'', ''/n/5'']) sample_state \<and>
   ordered sample_state = map str_of [''/n/1'', ''/n/2'', ''/n/3'', ''/n/4'', ''/n/5''] \<and>
   distinct (ordered sample_state) \<and> set (ordered sample_state) = seen sample_state \<and>
   length (ordered sample_state) = card (seen sample_state) \<and>
   prefix (ordered sample_state)
     (dict_fromkeys (map str_of [''/n/1'', ''/n/2'', ''/n/3''] @
        map str_of [''/n/1'', ''/n/2'', ''/n/3'', ''/n/3'', ''/n/4'', ''/n/5'']))"
proof -
  have "visited 5 sample_listing (map str_of [''/n/1'', ''/n/2'', ''/n/3''])
      (add_urls 5 (map str_of [''/n/1'', ''/n/2'', ''/n/3'']) initial_state)"
    using sample_initial by (rule visit_first)
  then have v0: "visited 5 sample_listing (map str_of [''/n/1'', ''/n/2'', ''/n/3'']) first_state"
    by (simp only: sample_first_state)
  have c0: "loop_condition 5 first_state" by (simp add: harvester_defs)
  have v: "visited 5 sample_listing
     (map str_of [''/n/1'', ''/n/2'', ''/n/3''] @
      map str_of [''/n/1'', ''/n/2'', ''/n/3'', ''/n/3'', ''/n/4'', ''/n/5'']) sample_state"
    using v0 c0 sample_round_hrefs sample_round by (rule visit_round)
  have o: "ordered sample_state = map str_of [''/n/1'', ''/n/2'', ''/n/3'', ''/n/4'', ''/n/5'']"
    by (simp add: sample_state_def)
  from v o visited_no_duplicates [OF v] show ?thesis by (intro conjI) simp_all
qed

text \<open>
  C7. A round that runs to its end makes one click. When it leaves the ordered sequence
  as it was, which it does when every link it reads has been seen, the stall counter
  grows by exactly 1; when it extends the sequence, which it does when it reads a link not
  seen before, the stall counter is 0 afterwards. The loop runs no further round when the
  stall counter has reached the stall limit or the clicks have reached the click ceiling.
\<close>

theorem stall_counter_round:
  "(harvest_round n r st = Continue st' \<longrightarrow>
      clicks st' = clicks st + 1 \<and>
      (ordered st' = ordered st \<longrightarrow> stalls st' = stalls st + 1) \<and>
      (ordered st' \<noteq> ordered st \<longrightarrow> stalls st' = 0) \<and>
      (\<forall>current. collect_urls_from_dom (hrefs r) = Inr current \<longrightarrow>
         (set current \<subseteq> seen st \<longrightarrow> stalls st' = stalls st + 1) \<and>
         ((\<exists>u \<in> set current. u \<notin> seen st) \<longrightarrow> stalls st' = 0))) \<and>
   (\<not> (stalls st < STALL_LIMIT \<and> clicks st < MAX_SHOW_MORE_CLICKS) \<longrightarrow>
      harvest_loop n rs st = Inr st)"
proof (intro conjI impI allI)
  assume r: "harvest_round n r st = Continue st'"
  let ?st0 = "st\<lparr>clicks := clicks st + 1\<rparr>"
  obtain cur where cur: "collect_urls_from_dom (hrefs r) = Inr cur"
    and o: "ordered st' = ordered (add_urls n cur ?st0)"
    and c: "clicks st' = clicks st + 1"
    and s: "stalls st' = (if length (ordered st') = length (ordered st) then stalls st + 1 else 0)"
    using harvest_round_Continue [OF r] by blast
  have ext: "prefix (ordered st) (ordered st')"
    using add_urls_extends [of ?st0 n cur] o by simp
  show "clicks st' = clicks st + 1" by (rule c)
  show "stalls st' = stalls st + 1" if "ordered st' = ordered st"
    using s that by simp
  show "stalls st' = 0" if "ordered st' \<noteq> ordered st"
  proof -
    have "length (ordered st') \<noteq> length (ordered st)"
      using ext that by (auto simp: prefix_def)
    then show ?thesis using s by simp
  qed
  show "stalls st' = stalls st + 1"
    if "collect_urls_from_dom (hrefs r) = Inr current" and "set current \<subseteq> seen st" for current
  proof -
    have "cur = current" using cur that(1) by simp
    then have "add_urls n cur ?st0 = ?st0" using that(2) by (simp add: add_urls_all_seen)
    then show ?thesis using s o by simp
  qed
  show "stalls st' = 0"
    if "collect_urls_from_dom (hrefs r) = Inr current" and "\<exists>u \<in> set current. u \<notin> seen st"
    for current
  proof -
    have "cur = current" using cur that(1) by simp
    moreover have "\<exists>u \<in> set current. u \<notin> seen ?st0" using that(2) by simp
    ultimately have "length (ordered ?st0) < length (ordered (add_urls n cur ?st0))"
      using add_urls_new [of current ?st0 n] by simp
    then show ?thesis using s o by simp
  qed
next
  assume "\<not> (stalls st < STALL_LIMIT \<and> clicks st < MAX_SHOW_MORE_CLICKS)"
  then have "\<not> loop_condition n st" by (auto simp: loop_condition_def)
  then show "harvest_loop n rs st = Inr st" by (rule harvest_loop_stop)
qed

theorem stall_counter_round_witness:
  "harvest_round 9 (rounds sample_listing 0) first_state = Continue sample_state \<and>
   ordered sample_state \<noteq> ordered first_state \<and> stalls sample_state = 0 \<and>
   harvest_round 9 (rounds sample_listing 1) sample_state =
     Continue (sample_state \<lparr> clicks := 2, stalls := 1 \<rparr>) \<and>
   ordered (sample_state \<lparr> clicks := 2, stalls := 1 \<rparr>) = ordered sample_state \<and>
   stalls (sample_state \<lparr> clicks := 2, stalls := 1 \<rparr>) = stalls sample_state + 1 \<and>
   harvest_loop 9 (rounds sample_listing) (sample_state \<lparr> stalls := 10 \<rparr>) =
     Inr (sample_state \<lparr> stalls := 10 \<rparr>)"
proof -
  have d: "ordered sample_state \<noteq> ordered first_state"
    by (simp add: sample_state_def first_state_def)
  have s: "\<not> (stalls (sample_state \<lparr> stalls := 10 \<rparr>) < STALL_LIMIT \<and>
      clicks (sample_state \<lparr> stalls := 10 \<rparr>) < MAX_SHOW_MORE_CLICKS)"
    by (simp add: STALL_LIMIT_def)
  have a: "stalls sample_state = 0"
    using stall_counter_round [of 9 "rounds sample_listing 0" first_state sample_state
        "rounds sample_listing"] sample_round_9 [of 0] d
    by blast
  have b: "stalls (sample_state \<lparr> clicks := 2, stalls := 1 \<rparr>) = stalls sample_state + 1"
    using stall_counter_round [of 9 "rounds sample_listing 1" sample_state
        "sample_state \<lparr> clicks := 2, stalls := 1 \<rparr>" "rounds sample_listing"]
      sample_stalled_round [of 1]
    by simp
  have c: "harvest_loop 9 (rounds sample_listing) (sample_state \<lparr> stalls := 10 \<rparr>) =
      Inr (sample_state \<lparr> stalls := 10 \<rparr>)"
    using stall_counter_round [of 9 "rounds sample_listing 0" "sample_state \<lparr> stalls := 10 \<rparr>"
        sample_state "rounds sample_listing"] s
    by blast
  show ?thesis
    using a b c d sample_round_9 [of 0] sample_stalled_round [of 1] by simp
qed

text \<open>
  C6. When the traversal returns, requests are emitted for at most \<open>n\<close> locations (for
  none when \<open>n\<close> is not positive). When they are fewer than \<open>n\<close>, they are all the
  locations found, and the loop was left because the clicks had reached the click
  ceiling, or the stalls had reached the stall limit, or \<open>click_show_more_and_wait\<close>
  answered \<open>False\<close>: the control was not there, or it could not be scrolled to or clicked.
\<close>

theorem harvest_at_most_target:
  assumes "harvest n page = Inr st"
  shows "outcome (parse_list n page) = Inr (py_prefix n (ordered st)) \<and>
         int (length (py_prefix n (ordered st))) \<le> max 0 n \<and>
         (int (length (py_prefix n (ordered st))) < n \<longrightarrow>
            py_prefix n (ordered st) = ordered st \<and>
            (MAX_SHOW_MORE_CLICKS \<le> clicks st \<or> STALL_LIMIT \<le> stalls st \<or>
             (\<exists>c. anchor_count (rounds page (clicks st)) = Returns c \<and>
                  click_show_more_and_wait (rounds page (clicks st)) c = Inr False)))"
proof (intro conjI impI)
  show "outcome (parse_list n page) = Inr (py_prefix n (ordered st))"
    using assms by (simp add: parse_list_def)
  show "int (length (py_prefix n (ordered st))) \<le> max 0 n"
  proof (cases "0 \<le> n")
    case True
    then show ?thesis by (simp add: length_py_prefix)
  next
    case False
    then have "py_prefix n (ordered st) = []" using assms by (intro harvest_nonpos) simp_all
    then show ?thesis by simp
  qed
next
  assume short: "int (length (py_prefix n (ordered st))) < n"
  then have pos: "0 \<le> n" by simp
  from short have len: "int (length (ordered st)) < n"
    using pos by (simp add: length_py_prefix min_def split: if_splits)
  then show "py_prefix n (ordered st) = ordered st"
    using pos by (simp add: py_prefix_def)
  obtain urls where "harvest_loop n (rounds page) (add_urls n urls initial_state) = Inr st"
    using assms by (auto simp: harvest_def split: sum.splits)
  from harvest_loop_exit [OF this]
  have "\<not> loop_condition n st \<or> harvest_round n (rounds page (clicks st)) st = Break" .
  then show "MAX_SHOW_MORE_CLICKS \<le> clicks st \<or> STALL_LIMIT \<le> stalls st \<or>
      (\<exists>c. anchor_count (rounds page (clicks st)) = Returns c \<and>
           click_show_more_and_wait (rounds page (clicks st)) c = Inr False)"
  proof
    assume "\<not> loop_condition n st"
    then show ?thesis using len by (auto simp: loop_condition_def)
  next
    assume "harvest_round n (rounds page (clicks st)) st = Break"
    from harvest_round_Break [OF this] show ?thesis by simp
  qed
qed

theorem harvest_at_most_target_witness:
  "harvest 9 exhausted_listing = Inr sample_state \<and>
   outcome (parse_list 9 exhausted_listing) = Inr (py_prefix 9 (ordered sample_state)) \<and>
   py_prefix 9 (ordered sample_state) = ordered sample_state \<and>
   length (ordered sample_state) = 5 \<and>
   (\<exists>c. anchor_count (rounds exhausted_listing (clicks sample_state)) = Returns c \<and>
        click_show_more_and_wait (rounds exhausted_listing (clicks sample_state)) c = Inr False)"
proof -
  have l: "length (ordered sample_state) = 5" by (simp add: sample_state_def)
  have p: "py_prefix 9 (ordered sample_state) = ordered sample_state"
    by (simp add: py_prefix_def l)
  have k: "\<not> MAX_SHOW_MORE_CLICKS \<le> clicks sample_state" "\<not> STALL_LIMIT \<le> stalls sample_state"
    by (simp_all add: sample_state_def MAX_SHOW_MORE_CLICKS_def STALL_LIMIT_def)
  from harvest_at_most_target [OF exhausted_harvest] exhausted_harvest l p k
  show ?thesis by simp
qed




end
